theory Spec2Isabelle
  imports Main "HOL-Library.Word" "HOL-Library.FSet" "HOL-Library.Finite_Map"
begin

section \<open>Data model\<close>

text \<open>
  Go's \<open>error\<close> values, by the place that creates them: \<open>errors.New(msg)\<close>, the
  \<open>fmt.Errorf("unexpected status %d - %s\n", code, body)\<close> of \<open>Hipchat.Send\<close>, and an error
  handed back by a library call (\<open>json.Marshal\<close>, \<open>http.NewRequest\<close>, \<open>http.Client.Do\<close>,
  \<open>ioutil.ReadAll\<close>, \<open>json.Encoder.Encode\<close>). A \<open>nil\<close> error is \<open>None\<close>.
\<close>

datatype error =
    errors_New string
  | UnexpectedStatus int string
  | LibraryError string

text \<open>
  \<open>cloudtrail.Event\<close> of the AWS SDK, restricted to the three fields the program reads.
  Each is a \<open>*string\<close>: \<open>None\<close> is the nil pointer. \<open>aws.StringValue\<close> reads such a
  pointer, giving the empty string for nil.
\<close>

record Event =
  evEventId :: "string option"
  evEventName :: "string option"
  evUsername :: "string option"

fun StringValue :: "string option \<Rightarrow> string" where
  "StringValue None = []"
| "StringValue (Some v) = v"

text \<open>
  \<open>Stash\<close> of \<open>main.go\<close>. \<open>TTL\<close> is a \<open>time.Duration\<close> (an \<open>int64\<close> of nanoseconds);
  \<open>Expiration\<close> is a \<open>time.Time\<close>, kept as an integer instant since no code reads it.
\<close>

record Stash =
  EventName :: string
  Username :: string
  TTL :: "64 word"
  Expiration :: int
  Regex :: string
  ResourceName :: string
  ResourceType :: string
  Description :: string
  Destinations :: "string list"

section \<open>The match decision\<close>

text \<open>\<open>Stash.discard\<close> (\<open>main.go\<close>, lines 57 to 65).\<close>

definition discard :: "Stash \<Rightarrow> Event \<Rightarrow> string \<Rightarrow> bool" where
  "discard s event dest =
     (if EventName s \<noteq> [] \<and> EventName s = StringValue (evEventName event) then True
      else if Username s \<noteq> [] \<and> Username s = StringValue (evUsername event) then True
      else False)"

section \<open>The controller\<close>

text \<open>
  The \<open>Notifiers\<close> interface of \<open>main.go\<close>: \<open>Send\<close> acts on the outside world (type
  \<open>'w\<close>: standard output, the network) and returns an error or nil; \<open>Name\<close> returns a
  string.
\<close>

record 'w Notifiers =
  Send :: "Event \<Rightarrow> 'w \<Rightarrow> error option \<times> 'w"
  Name :: string

text \<open>
  \<open>Controller\<close> of \<open>main.go\<close>. The stash map is a finite map from \<open>int\<close> keys. The
  mutex is left out (each operation below is one critical section, run alone), and the
  logger's output is the trace that \<open>processEvent\<close> returns. A Go \<open>int\<close> holds every
  size a map can reach, so \<open>len\<close> and the ids are unbounded integers here.
\<close>

record 'w Controller =
  stashes :: "(int, Stash) fmap"
  debug :: bool
  notifiers :: "'w Notifiers list"

text \<open>\<open>New\<close> (\<open>main.go\<close>, lines 175 to 182).\<close>

definition New :: "'w Controller" where
  "New = \<lparr>stashes = fmempty, debug = False, notifiers = []\<rparr>"

text \<open>Go's \<open>len(c.stashes)\<close>: the number of keys of the map.\<close>

definition len_stashes :: "(int, Stash) fmap \<Rightarrow> int" where
  "len_stashes m = int (fcard (fmdom m))"

text \<open>\<open>Controller.addStash\<close> (\<open>main.go\<close>, lines 134 to 141): the id and the new state.\<close>

definition addStash :: "Stash \<Rightarrow> 'w Controller \<Rightarrow> int \<times> 'w Controller" where
  "addStash s c =
     (let n = len_stashes (stashes c);
          nextStash = n + 1
      in (nextStash, c\<lparr>stashes := fmupd nextStash s (stashes c)\<rparr>))"

text \<open>\<open>Controller.addNotifier\<close> (\<open>main.go\<close>, lines 143 to 147).\<close>

definition addNotifier :: "'w Notifiers \<Rightarrow> 'w Controller \<Rightarrow> 'w Controller" where
  "addNotifier s c = c\<lparr>notifiers := notifiers c @ [s]\<rparr>"

text \<open>Sequential \<open>addStash\<close> calls, collecting the ids they return.\<close>

fun addStashes :: "Stash list \<Rightarrow> 'w Controller \<Rightarrow> int list \<times> 'w Controller" where
  "addStashes [] c = ([], c)"
| "addStashes (s # ss) c =
     (case addStash s c of (i, c') \<Rightarrow>
        (case addStashes ss c' of (js, c'') \<Rightarrow> (i # js, c'')))"

text \<open>Any sequence of the two registration operations, run on a controller.\<close>

datatype 'w op = AddStash Stash | AddNotifier "'w Notifiers"

fun apply_op :: "'w op \<Rightarrow> 'w Controller \<Rightarrow> 'w Controller" where
  "apply_op (AddStash s) c = snd (addStash s c)"
| "apply_op (AddNotifier n) c = addNotifier n c"

fun run :: "'w op list \<Rightarrow> 'w Controller \<Rightarrow> 'w Controller" where
  "run [] c = c"
| "run (x # xs) c = run xs (apply_op x c)"

fun addStash_calls :: "'w op list \<Rightarrow> nat" where
  "addStash_calls [] = 0"
| "addStash_calls (AddStash s # xs) = Suc (addStash_calls xs)"
| "addStash_calls (AddNotifier n # xs) = addStash_calls xs"

section \<open>Dispatch\<close>

text \<open>
  What \<open>processEvent\<close> does, in order: the lines it logs and its calls of \<open>Send\<close>.
  \<open>LogMatch\<close> and \<open>LogNoMatch\<close> carry the stash id; \<open>LogDiscard\<close>, \<open>LogSendError\<close> and
  \<open>LogSendOk\<close> carry the notifier's name and the event id; \<open>CallSend i e\<close> is the call
  \<open>sv.Send(e)\<close> on the notifier at position \<open>i\<close> of \<open>c.notifiers\<close>.
\<close>

datatype action =
    LogMatch int
  | LogNoMatch int
  | LogDiscard string string
  | CallSend nat Event
  | LogSendError string string error
  | LogSendOk string string

text \<open>
  Go leaves the order of \<open>range\<close> over a map open, and it may differ from one loop to the
  next. A run of the loop visits the keys in some order \<open>ks\<close>: each key once
  (\<open>range_order\<close>). \<open>entries m ks\<close> are the pairs the loop sees.
\<close>

fun entries :: "('k, 'a) fmap \<Rightarrow> 'k list \<Rightarrow> ('k \<times> 'a) list" where
  "entries m [] = []"
| "entries m (k # ks) =
     (case fmlookup m k of
        None \<Rightarrow> entries m ks
      | Some st \<Rightarrow> (k, st) # entries m ks)"

definition range_order :: "('k, 'a) fmap \<Rightarrow> 'k list \<Rightarrow> bool" where
  "range_order m ks = (distinct ks \<and> set ks = fmdom' m)"

text \<open>
  The inner loop of \<open>processEvent\<close> (\<open>main.go\<close>, lines 83 to 92): the final value of the
  \<open>discard\<close> flag and the lines logged. The \<open>break\<close> is the first branch, which does not
  recurse.
\<close>

fun rangeLoop :: "(int \<times> Stash) list \<Rightarrow> Event \<Rightarrow> string \<Rightarrow> bool \<times> action list" where
  "rangeLoop [] event name = (False, [])"
| "rangeLoop ((stashID, st) # rest) event name =
     (if discard st event name then (True, [LogMatch stashID])
      else (case rangeLoop rest event name of
              (d, lg) \<Rightarrow> (d, LogNoMatch stashID # lg)))"

definition suppressed :: "(int, Stash) fmap \<Rightarrow> int list \<Rightarrow> Event \<Rightarrow> string \<Rightarrow> bool" where
  "suppressed m ks event name = fst (rangeLoop (entries m ks) event name)"

text \<open>
  The body of the outer loop (\<open>main.go\<close>, lines 82 to 102) for the notifier \<open>sv\<close> at
  position \<open>i\<close>, with \<open>ks\<close> the order in which this pass ranges over the stashes.
\<close>

definition notifyOne ::
  "(int, Stash) fmap \<Rightarrow> int list \<Rightarrow> Event \<Rightarrow> nat \<Rightarrow> 'w Notifiers \<Rightarrow> 'w
     \<Rightarrow> action list \<times> 'w" where
  "notifyOne m ks event i sv w =
     (let name = Name sv in
      case rangeLoop (entries m ks) event name of
        (True, lg) \<Rightarrow> (lg @ [LogDiscard name (StringValue (evEventId event))], w)
      | (False, lg) \<Rightarrow>
          (case Send sv event w of
             (Some err, w') \<Rightarrow>
               (lg @ [CallSend i event,
                      LogSendError name (StringValue (evEventId event)) err], w')
           | (None, w') \<Rightarrow>
               (lg @ [CallSend i event,
                      LogSendOk name (StringValue (evEventId event))], w')))"

text \<open>The outer loop over \<open>c.notifiers\<close>; \<open>ord i\<close> is the range order of pass \<open>i\<close>.\<close>

fun notifyLoop ::
  "(int, Stash) fmap \<Rightarrow> (nat \<Rightarrow> int list) \<Rightarrow> Event \<Rightarrow> nat \<Rightarrow> 'w Notifiers list \<Rightarrow> 'w
     \<Rightarrow> action list \<times> 'w" where
  "notifyLoop m ord event i [] w = ([], w)"
| "notifyLoop m ord event i (sv # svs) w =
     (case notifyOne m (ord i) event i sv w of
        (tr, w') \<Rightarrow>
          (case notifyLoop m ord event (Suc i) svs w' of
             (tr', w'') \<Rightarrow> (tr @ tr', w'')))"

text \<open>
  \<open>Controller.processEvent\<close> (\<open>main.go\<close>, lines 77 to 104). The Go function returns
  nothing; the model returns what it did and the world its \<open>Send\<close> calls left.
\<close>

definition processEvent ::
  "'w Controller \<Rightarrow> (nat \<Rightarrow> int list) \<Rightarrow> Event \<Rightarrow> 'w \<Rightarrow> action list \<times> 'w" where
  "processEvent c ord event w = notifyLoop (stashes c) ord event 0 (notifiers c) w"

text \<open>
  Two readings of a trace: the positions of the notifiers whose \<open>Send\<close> was called, and the
  names of the notifiers that reached an outcome (discarded, sent with an error, sent).
\<close>

fun sends :: "action list \<Rightarrow> nat list" where
  "sends [] = []"
| "sends (CallSend i e # tr) = i # sends tr"
| "sends (a # tr) = sends tr"

fun outcomes :: "action list \<Rightarrow> string list" where
  "outcomes [] = []"
| "outcomes (LogDiscard n i # tr) = n # outcomes tr"
| "outcomes (LogSendError n i e # tr) = n # outcomes tr"
| "outcomes (LogSendOk n i # tr) = n # outcomes tr"
| "outcomes (a # tr) = outcomes tr"

section \<open>The legacy single-file program\<close>

text \<open>
  The earlier single-file version of the program declares the same names; here they carry the
  prefix \<open>legacy_\<close> (and \<open>service_\<close> for the methods of its \<open>service\<close> interface, whose
  \<open>Send\<close> returns nothing).
\<close>

record legacy_stash =
  legacy_EventName :: string
  legacy_Username :: string
  legacy_Destinations :: "string list"

record 'w service =
  service_Send :: "Event \<Rightarrow> 'w \<Rightarrow> 'w"
  service_Name :: string

record 'w legacy_Controller =
  legacy_stashes :: "(int, legacy_stash) fmap"
  services :: "'w service list"

text \<open>\<open>stash.discard\<close> of the legacy file (lines 57 to 65).\<close>

definition legacy_discard :: "legacy_stash \<Rightarrow> Event \<Rightarrow> string \<Rightarrow> bool" where
  "legacy_discard s event dest =
     (if legacy_EventName s \<noteq> [] \<and> legacy_EventName s = StringValue (evEventName event)
      then True
      else if legacy_Username s \<noteq> [] \<and> legacy_Username s = StringValue (evUsername event)
      then True
      else False)"

text \<open>
  What the legacy dispatch loop does: its log lines (\<open>LegacyLogSend\<close> is the line
  \<open>action=send\<close>, written before the call) and its calls of \<open>Send\<close>.
\<close>

datatype legacy_action =
    LegacyLogMatch int
  | LegacyLogNoMatch int
  | LegacyLogSend string string
  | LegacyCallSend nat Event
  | LegacyLogDiscard string string

text \<open>The inner loop of the legacy \<open>testHandler\<close> (lines 83 to 91).\<close>

fun legacy_rangeLoop ::
  "(int \<times> legacy_stash) list \<Rightarrow> Event \<Rightarrow> string \<Rightarrow> bool \<times> legacy_action list" where
  "legacy_rangeLoop [] event name = (False, [])"
| "legacy_rangeLoop ((stashID, st) # rest) event name =
     (if legacy_discard st event name then (True, [LegacyLogMatch stashID])
      else (case legacy_rangeLoop rest event name of
              (d, lg) \<Rightarrow> (d, LegacyLogNoMatch stashID # lg)))"

definition legacy_suppressed ::
  "(int, legacy_stash) fmap \<Rightarrow> int list \<Rightarrow> Event \<Rightarrow> string \<Rightarrow> bool" where
  "legacy_suppressed m ks event name = fst (legacy_rangeLoop (entries m ks) event name)"

text \<open>The body of its outer loop (lines 81 to 97) for the service at position \<open>i\<close>.\<close>

definition legacy_serveOne ::
  "(int, legacy_stash) fmap \<Rightarrow> int list \<Rightarrow> Event \<Rightarrow> nat \<Rightarrow> 'w service \<Rightarrow> 'w
     \<Rightarrow> legacy_action list \<times> 'w" where
  "legacy_serveOne m ks event i sv w =
     (let name = service_Name sv in
      case legacy_rangeLoop (entries m ks) event name of
        (False, lg) \<Rightarrow>
          (lg @ [LegacyLogSend name (StringValue (evEventId event)), LegacyCallSend i event],
           service_Send sv event w)
      | (True, lg) \<Rightarrow>
          (lg @ [LegacyLogDiscard name (StringValue (evEventId event))], w))"

fun legacy_serveLoop ::
  "(int, legacy_stash) fmap \<Rightarrow> (nat \<Rightarrow> int list) \<Rightarrow> Event \<Rightarrow> nat \<Rightarrow> 'w service list \<Rightarrow> 'w
     \<Rightarrow> legacy_action list \<times> 'w" where
  "legacy_serveLoop m ord event i [] w = ([], w)"
| "legacy_serveLoop m ord event i (sv # svs) w =
     (case legacy_serveOne m (ord i) event i sv w of
        (tr, w') \<Rightarrow>
          (case legacy_serveLoop m ord event (Suc i) svs w' of
             (tr', w'') \<Rightarrow> (tr @ tr', w'')))"

text \<open>
  The dispatch loop of the legacy \<open>testHandler\<close> (lines 77 to 98), entered once the request
  body has been decoded into an event.
\<close>

definition legacy_dispatch ::
  "'w legacy_Controller \<Rightarrow> (nat \<Rightarrow> int list) \<Rightarrow> Event \<Rightarrow> 'w \<Rightarrow> legacy_action list \<times> 'w" where
  "legacy_dispatch c ord event w =
     legacy_serveLoop (legacy_stashes c) ord event 0 (services c) w"

fun legacy_sends :: "legacy_action list \<Rightarrow> nat list" where
  "legacy_sends [] = []"
| "legacy_sends (LegacyCallSend i e # tr) = i # legacy_sends tr"
| "legacy_sends (a # tr) = legacy_sends tr"

text \<open>The fields a \<open>Stash\<close> shares with a legacy \<open>stash\<close>.\<close>

definition shared :: "Stash \<Rightarrow> legacy_stash" where
  "shared s = \<lparr>legacy_EventName = EventName s, legacy_Username = Username s,
               legacy_Destinations = Destinations s\<rparr>"

section \<open>The Hipchat notifier\<close>

text \<open>\<open>Hipchat\<close> and \<open>HipchatMessage\<close> of \<open>notifier/hipchat.go\<close>.\<close>

record Hipchat =
  Endpoint :: string
  RoomID :: string
  Token :: string
  From :: string

record HipchatMessage =
  msg_From :: string
  msg_Message :: string

definition HipchatDefaultEndoint :: string where
  "HipchatDefaultEndoint = ''https://api.hipchat.com''"

text \<open>
  \<open>NewHipchat\<close> (lines 36 to 65). \<open>assign\<close> is the \<open>switch\<close> on the key, \<open>configLoop\<close>
  the \<open>range\<close> over the configuration map, seen in the order \<open>ks\<close>. The \<open>fmt.Printf\<close> of
  the new value to standard output is left out.
\<close>

definition assign :: "string \<Rightarrow> string \<Rightarrow> Hipchat \<Rightarrow> Hipchat" where
  "assign k v h =
     (if k = ''room'' then h\<lparr>RoomID := v\<rparr>
      else if k = ''token'' then h\<lparr>Token := v\<rparr>
      else if k = ''from'' then h\<lparr>From := v\<rparr>
      else if k = ''endpoint'' then h\<lparr>Endpoint := v\<rparr>
      else h)"

fun configLoop :: "(string \<times> string) list \<Rightarrow> Hipchat \<Rightarrow> Hipchat" where
  "configLoop [] h = h"
| "configLoop ((k, v) # rest) h = configLoop rest (assign k v h)"

definition NewHipchat :: "(string, string) fmap \<Rightarrow> string list \<Rightarrow> error + Hipchat" where
  "NewHipchat config ks =
     (let h = configLoop (entries config ks) \<lparr>Endpoint = [], RoomID = [], Token = [], From = []\<rparr>
      in if RoomID h = [] then Inl (errors_New ''missing room'')
         else if Token h = [] then Inl (errors_New ''missing token'')
         else if From h = [] then Inl (errors_New ''missing from'')
         else Inr (if Endpoint h = [] then h\<lparr>Endpoint := HipchatDefaultEndoint\<rparr> else h))"

text \<open>Go's \<open>m[k]\<close> on a \<open>map[string]string\<close>: the empty string when the key is absent.\<close>

definition mapIndex :: "(string, string) fmap \<Rightarrow> string \<Rightarrow> string" where
  "mapIndex m k = (case fmlookup m k of None \<Rightarrow> [] | Some v \<Rightarrow> v)"

definition orElse :: "string option \<Rightarrow> string \<Rightarrow> string" where
  "orElse x d = (case x of None \<Rightarrow> d | Some v \<Rightarrow> v)"

text \<open>
  The library calls of \<open>Hipchat.Send\<close> are parameters: \<open>json.Marshal\<close>,
  \<open>http.NewRequest\<close> and \<open>http.DefaultClient.Do\<close>, which acts on the world. A
  \<open>Response\<close> holds its status code and what \<open>ioutil.ReadAll(resp.Body)\<close> returns: the
  bytes read and an error or nil.
\<close>

record Request =
  Method :: string
  URL :: string
  Body :: string
  Header :: "(string \<times> string) list"

record Response =
  StatusCode :: int
  ReadAll :: "string \<times> error option"

record 'w library =
  json_Marshal :: "HipchatMessage \<Rightarrow> error + string"
  http_NewRequest :: "string \<Rightarrow> string \<Rightarrow> string \<Rightarrow> error + Request"
  DefaultClient_Do :: "Request \<Rightarrow> 'w \<Rightarrow> (error + Response) \<times> 'w"

text \<open>
  \<open>Header.Add\<close> of Go's \<open>net/http\<close> stores the value under the canonical form of the key
  (\<open>textproto.CanonicalMIMEHeaderKey\<close>): a key made of header-field bytes only gets an
  upper-case letter at the start and after each hyphen and lower-case letters elsewhere; any
  other key is kept as it is. The header is kept as the list of pairs in the order added.
\<close>

definition validHeaderFieldByte :: "char \<Rightarrow> bool" where
  "validHeaderFieldByte c =
     (let n = (of_char c :: nat)
      in (48 \<le> n \<and> n \<le> 57) \<or> (65 \<le> n \<and> n \<le> 90) \<or> (97 \<le> n \<and> n \<le> 122)
         \<or> n \<in> {33, 35, 36, 37, 38, 39, 42, 43, 45, 46, 94, 95, 96, 124, 126})"

fun canonLoop :: "bool \<Rightarrow> string \<Rightarrow> string" where
  "canonLoop upper [] = []"
| "canonLoop upper (c # cs) =
     (let n = (of_char c :: nat);
          c' = (if upper \<and> 97 \<le> n \<and> n \<le> 122 then char_of (n - 32)
                else if \<not> upper \<and> 65 \<le> n \<and> n \<le> 90 then char_of (n + 32)
                else c)
      in c' # canonLoop (c' = CHR ''-'') cs)"

definition CanonicalMIMEHeaderKey :: "string \<Rightarrow> string" where
  "CanonicalMIMEHeaderKey s = (if list_all validHeaderFieldByte s then canonLoop True s else s)"

definition Header_Add :: "string \<Rightarrow> string \<Rightarrow> Request \<Rightarrow> Request" where
  "Header_Add k v req = req\<lparr>Header := Header req @ [(CanonicalMIMEHeaderKey k, v)]\<rparr>"

text \<open>\<open>Hipchat.Send\<close> (lines 68 to 97).\<close>

definition Hipchat_Send :: "'w library \<Rightarrow> Hipchat \<Rightarrow> Event \<Rightarrow> 'w \<Rightarrow> error option \<times> 'w" where
  "Hipchat_Send lib h e w =
     (let url = Endpoint h @ ''/v2/room/'' @ RoomID h @ ''/notification'';
          message = \<lparr>msg_From = From h, msg_Message = StringValue (evEventId e)\<rparr>
      in case json_Marshal lib message of
           Inl err \<Rightarrow> (Some err, w)
         | Inr body \<Rightarrow>
             (case http_NewRequest lib ''POST'' url body of
                Inl err \<Rightarrow> (Some err, w)
              | Inr req \<Rightarrow>
                  (let req' = Header_Add ''Content-type'' ''application/json''
                                (Header_Add ''Authorization'' (''Bearer '' @ Token h) req)
                   in case DefaultClient_Do lib req' w of
                        (Inl err, w') \<Rightarrow> (Some err, w')
                      | (Inr resp, w') \<Rightarrow>
                          (case ReadAll resp of
                             (respBody, err) \<Rightarrow>
                               if StatusCode resp \<ge> 300
                               then (Some (UnexpectedStatus (StatusCode resp) respBody), w')
                               else (None, w')))))"

section \<open>Sample values\<close>

text \<open>
  The zero \<open>Stash\<close>; a world that lists what was delivered; notifiers whose \<open>Send\<close>
  delivers, one of them returning the error of a 404 answer all the same; two events; a
  controller with two stashes and one notifier, and one with the same stashes and three
  notifiers; range orders that differ from pass to pass; the legacy controller with the same
  stashes and services.
\<close>

definition zeroStash :: Stash where
  "zeroStash = \<lparr>EventName = [], Username = [], TTL = 0, Expiration = 0, Regex = [],
     ResourceName = [], ResourceType = [], Description = [], Destinations = []\<rparr>"

definition sinkNotifier :: "string \<Rightarrow> string list Notifiers" where
  "sinkNotifier nm = \<lparr>Send = (\<lambda>e w. (None, w @ [StringValue (evEventId e)])), Name = nm\<rparr>"

definition namedSink :: "string \<Rightarrow> string list Notifiers" where
  "namedSink nm =
     \<lparr>Send = (\<lambda>e w. (None, w @ [nm @ '':'' @ StringValue (evEventId e)])), Name = nm\<rparr>"

definition rejectedSink :: "string \<Rightarrow> string list Notifiers" where
  "rejectedSink nm =
     \<lparr>Send = (\<lambda>e w. (Some (UnexpectedStatus 404 []), w @ [nm @ '':'' @ StringValue (evEventId e)])),
      Name = nm\<rparr>"

definition deleteBucket :: Event where
  "deleteBucket =
     \<lparr>evEventId = Some ''e1'', evEventName = Some ''DeleteBucket'', evUsername = None\<rparr>"

definition createUser :: Event where
  "createUser =
     \<lparr>evEventId = Some ''e2'', evEventName = Some ''CreateUser'', evUsername = None\<rparr>"

definition scenarioA :: "string list Controller" where
  "scenarioA =
     \<lparr>stashes = fmupd 2 (zeroStash\<lparr>EventName := ''DeleteBucket''\<rparr>) (fmupd 1 zeroStash fmempty),
      debug = False,
      notifiers = [sinkNotifier ''stdout'']\<rparr>"

definition scenarioE :: "string list Controller" where
  "scenarioE =
     \<lparr>stashes = fmupd 2 (zeroStash\<lparr>EventName := ''DeleteBucket''\<rparr>) (fmupd 1 zeroStash fmempty),
      debug = False,
      notifiers = [namedSink ''stdout'', rejectedSink ''Hipchat'', namedSink ''console'']\<rparr>"

definition ordE :: "nat \<Rightarrow> int list" where
  "ordE i = (if i = 1 then [2, 1] else [1, 2])"

definition legacyE :: "string list legacy_Controller" where
  "legacyE =
     \<lparr>legacy_stashes = fmmap shared (stashes scenarioE),
      services =
        map (\<lambda>nm. \<lparr>service_Send = (\<lambda>e w. w @ [nm @ '':'' @ StringValue (evEventId e)]),
                    service_Name = nm\<rparr>)
            [''stdout'', ''Hipchat'', ''console'']\<rparr>"

text \<open>
  A configuration with an unrecognised key, the notifier it builds, and library calls that
  record each request sent and answer it with a given status and a given result of reading
  the body; \<open>sampleMarshal\<close> writes the JSON of a message whose strings need no escape.
\<close>

definition sampleConfig :: "(string, string) fmap" where
  "sampleConfig = fmupd ''color'' ''red'' (fmupd ''from'' ''cloudtail''
      (fmupd ''token'' ''secret'' (fmupd ''room'' ''ops'' fmempty)))"

definition sampleHipchat :: Hipchat where
  "sampleHipchat =
     \<lparr>Endpoint = ''https://api.hipchat.com'', RoomID = ''ops'', Token = ''secret'',
      From = ''cloudtail''\<rparr>"

definition sampleMarshal :: "HipchatMessage \<Rightarrow> error + string" where
  "sampleMarshal m =
     Inr ((if msg_From m = [] then ''{'' else ''{\"from\":\"'' @ msg_From m @ ''\",'')
          @ ''\"message\":\"'' @ msg_Message m @ ''\"}'')"

definition answering :: "int \<Rightarrow> string \<times> error option \<Rightarrow> Request list library" where
  "answering code rd =
     \<lparr>json_Marshal = sampleMarshal,
      http_NewRequest =
        (\<lambda>meth url body. Inr \<lparr>Method = meth, URL = url, Body = body, Header = []\<rparr>),
      DefaultClient_Do = (\<lambda>req w. (Inr \<lparr>StatusCode = code, ReadAll = rd\<rparr>, w @ [req]))\<rparr>"

section \<open>Properties of the match decision\<close>

text \<open>
  C1. \<open>discard\<close> answers true exactly when the event-name filter is non-empty and equal to
  the event's name, or the user-name filter is non-empty and equal to the event's user name
  (string equality, so case-sensitive). A stash whose two filters are empty matches no event,
  whatever its other fields hold, and overwriting the reserved fields (TTL, expiration, regex,
  resource name and type, description, destinations) never changes the decision.
\<close>

theorem discard_iff_filters:
  "discard s event dest =
     ((EventName s \<noteq> [] \<and> EventName s = StringValue (evEventName event)) \<or>
      (Username s \<noteq> [] \<and> Username s = StringValue (evUsername event)))
   \<and> \<not> discard (s\<lparr>EventName := [], Username := []\<rparr>) event dest
   \<and> discard (s\<lparr>TTL := t, Expiration := x, Regex := r, ResourceName := rn,
                  ResourceType := rt, Description := d, Destinations := ds\<rparr>) event dest
       = discard s event dest"
  by (auto simp: discard_def)

text \<open>
  C8. The decision does not depend on the destination argument, nor on the stash's
  \<open>Destinations\<close> field: any two destination names give the same answer for the same stash
  and event.
\<close>

theorem discard_destination_independent:
  "discard s event d1 = discard s event d2
   \<and> discard (s\<lparr>Destinations := ds\<rparr>) event d1 = discard s event d2"
  by (simp add: discard_def)

section \<open>Stash registration\<close>

lemma len_stashes_range: "fmdom' m = {1..int k} \<Longrightarrow> len_stashes m = int k"
  by (simp add: len_stashes_def fcard.rep_eq fmdom'_alt_def[symmetric])

lemma addStash_range:
  assumes "fmdom' (stashes c) = {1..int k}"
  shows "fst (addStash s c) = int k + 1"
    and "fmdom' (stashes (snd (addStash s c))) = {1..int (Suc k)}"
proof -
  have n: "len_stashes (stashes c) = int k"
    using assms by (rule len_stashes_range)
  show "fst (addStash s c) = int k + 1"
    by (simp add: addStash_def Let_def n)
  have "fmdom' (stashes (snd (addStash s c))) = insert (int k + 1) (fmdom' (stashes c))"
    by (simp add: addStash_def Let_def n)
  also have "\<dots> = insert (int k + 1) {1..int k}"
    by (simp only: assms)
  also have "\<dots> = {1..int (Suc k)}"
    by auto
  finally show "fmdom' (stashes (snd (addStash s c))) = {1..int (Suc k)}" .
qed

lemma addStashes_range:
  "fmdom' (stashes c) = {1..int k} \<Longrightarrow>
   fst (addStashes ss c) = [int k + 1..int k + int (length ss)]"
proof (induction ss arbitrary: c k)
  case Nil
  then show ?case by simp
next
  case (Cons s ss)
  obtain i c' where a: "addStash s c = (i, c')" by (cases "addStash s c")
  from addStash_range[OF Cons.prems, of s] a
  have i: "i = int k + 1" and d: "fmdom' (stashes c') = {1..int (Suc k)}" by simp_all
  from Cons.IH[OF d]
  have r: "fst (addStashes ss c') = [int k + 2..int k + 1 + int (length ss)]"
    by (simp add: algebra_simps)
  have "[int k + 1..int k + int (length (s # ss))]
          = (int k + 1) # [int k + 2..int k + 1 + int (length ss)]"
    by (subst upto_rec1) (simp_all add: algebra_simps)
  then show ?case using a i r
    by (cases "addStashes ss c'") simp
qed

lemma run_range:
  "fmdom' (stashes c) = {1..int k} \<Longrightarrow>
   fmdom' (stashes (run ops c)) = {1..int (k + addStash_calls ops)}"
proof (induction ops arbitrary: c k)
  case Nil
  then show ?case by simp
next
  case (Cons x ops)
  show ?case
  proof (cases x)
    case (AddStash s)
    from addStash_range(2)[OF Cons.prems, of s]
    have "fmdom' (stashes (apply_op x c)) = {1..int (Suc k)}" using AddStash by simp
    from Cons.IH[OF this] show ?thesis using AddStash by simp
  next
    case (AddNotifier n)
    have "fmdom' (stashes (apply_op x c)) = {1..int k}"
      using Cons.prems AddNotifier by (simp add: addNotifier_def)
    from Cons.IH[OF this] show ?thesis using AddNotifier by simp
  qed
qed

lemma New_range: "fmdom' (stashes (New :: 'w Controller)) = {1..int 0}"
  by (simp add: New_def)

text \<open>
  C4. On a controller fresh from \<open>New\<close>, sequential \<open>addStash\<close> calls return the ids
  1, 2, ..., n in that order. Each call returns the current number of stored stashes plus
  one and stores the stash under that id.
\<close>

theorem addStash_ids_from_New:
  "fst (addStashes ss (New :: 'w Controller)) = [1..int (length ss)]
   \<and> fst (addStash s c) = len_stashes (stashes c) + 1
   \<and> fmlookup (stashes (snd (addStash s c))) (fst (addStash s c)) = Some s"
proof -
  from addStashes_range[OF New_range, of ss] show ?thesis
    by (simp add: addStash_def Let_def)
qed

text \<open>
  C10. After any sequence of \<open>addStash\<close> and \<open>addNotifier\<close> calls on a controller made by
  \<open>New\<close>, the keys of the stash map are exactly 1, ..., n, where n counts the \<open>addStash\<close>
  calls. So the id a further \<open>addStash\<close> would assign is not yet a key (nothing is
  overwritten), the number of stashes is n, and, once a stash has been added, the largest key
  equals the number of stashes. A further \<open>addStash\<close> leaves the stash under every
  existing key as it was.
\<close>

theorem stash_keys_invariant:
  "fmdom' (stashes (run ops (New :: 'w Controller))) = {1..int (addStash_calls ops)}
   \<and> fst (addStash s (run ops (New :: 'w Controller)))
         \<notin> fmdom' (stashes (run ops (New :: 'w Controller)))
   \<and> len_stashes (stashes (run ops (New :: 'w Controller))) = int (addStash_calls ops)
   \<and> (0 < addStash_calls ops \<longrightarrow>
        Max (fmdom' (stashes (run ops (New :: 'w Controller))))
          = len_stashes (stashes (run ops (New :: 'w Controller))))
   \<and> (\<forall>k \<in> fmdom' (stashes (run ops (New :: 'w Controller))).
        fmlookup (stashes (snd (addStash s (run ops (New :: 'w Controller))))) k
          = fmlookup (stashes (run ops (New :: 'w Controller))) k)"
proof -
  from run_range[OF New_range, of ops]
  have d: "fmdom' (stashes (run ops (New :: 'w Controller))) = {1..int (addStash_calls ops)}"
    by simp
  have n: "len_stashes (stashes (run ops (New :: 'w Controller))) = int (addStash_calls ops)"
    using d by (rule len_stashes_range)
  have f: "fst (addStash s (run ops (New :: 'w Controller))) = int (addStash_calls ops) + 1"
    using d by (rule addStash_range(1))
  have m: "0 < addStash_calls ops \<longrightarrow>
             Max {1..int (addStash_calls ops)} = int (addStash_calls ops)"
    by (auto intro!: Max_eqI)
  have k: "\<forall>k \<in> {1..int (addStash_calls ops)}.
        fmlookup (stashes (snd (addStash s (run ops (New :: 'w Controller))))) k
          = fmlookup (stashes (run ops (New :: 'w Controller))) k"
    by (simp add: addStash_def Let_def n)
  show ?thesis using n f m k unfolding d by simp
qed

theorem stash_keys_invariant_witness:
  "0 < addStash_calls [AddStash zeroStash, AddNotifier (sinkNotifier ''stdout''), AddStash zeroStash]
   \<and> fmdom' (stashes (run [AddStash zeroStash, AddNotifier (sinkNotifier ''stdout''),
                              AddStash zeroStash] New)) = {1..2}
   \<and> len_stashes (stashes (run [AddStash zeroStash, AddNotifier (sinkNotifier ''stdout''),
                              AddStash zeroStash] New)) = 2
   \<and> Max (fmdom' (stashes (run [AddStash zeroStash, AddNotifier (sinkNotifier ''stdout''),
                              AddStash zeroStash] New))) = 2"
proof -
  let ?ops = "[AddStash zeroStash, AddNotifier (sinkNotifier ''stdout''), AddStash zeroStash]"
  have n: "addStash_calls ?ops = 2" by simp
  note c = stash_keys_invariant[of ?ops zeroStash, unfolded n]
  have m: "Max {1..2::int} = 2" by (auto intro!: Max_eqI)
  show ?thesis using c unfolding n by (simp add: m)
qed

section \<open>Dispatch: suppression and fan-out\<close>

lemma discard_dest: "discard st event d = discard st event d'"
  by (simp add: discard_def)

lemma entries_set: "set (entries m ks) = {(k, st). k \<in> set ks \<and> fmlookup m k = Some st}"
  by (induction ks) (auto split: option.splits)

lemma rangeLoop_fst: "fst (rangeLoop kvs event name) = (\<exists>kv \<in> set kvs. discard (snd kv) event name)"
  by (induction kvs event name rule: rangeLoop.induct) (fastforce split: prod.splits)+

lemma rangeLoop_sends: "sends (snd (rangeLoop kvs event name)) = []"
  by (induction kvs event name rule: rangeLoop.induct) (auto split: prod.splits)

lemma rangeLoop_outcomes: "outcomes (snd (rangeLoop kvs event name)) = []"
  by (induction kvs event name rule: rangeLoop.induct) (auto split: prod.splits)

lemma sends_append: "sends (xs @ ys) = sends xs @ sends ys"
  by (induction xs rule: sends.induct) simp_all

lemma outcomes_append: "outcomes (xs @ ys) = outcomes xs @ outcomes ys"
  by (induction xs rule: outcomes.induct) simp_all


lemma notifyOne_sends:
  "sends (fst (notifyOne m ks event i sv w))
     = (if fst (rangeLoop (entries m ks) event (Name sv)) then [] else [i])"
  using rangeLoop_sends[of "entries m ks" event "Name sv"]
  by (auto simp: notifyOne_def Let_def sends_append split: prod.splits option.splits bool.splits)

lemma notifyOne_outcomes:
  "outcomes (fst (notifyOne m ks event i sv w)) = [Name sv]"
  using rangeLoop_outcomes[of "entries m ks" event "Name sv"]
  by (auto simp: notifyOne_def Let_def outcomes_append split: prod.splits option.splits bool.splits)

lemma notifyLoop_sends:
  "i \<le> length ns \<Longrightarrow>
   sends (fst (notifyLoop m ord event i (drop i ns) w))
     = filter (\<lambda>j. \<not> suppressed m (ord j) event (Name (ns ! j))) [i..<length ns]"
proof (induction "length ns - i" arbitrary: i w)
  case 0
  then show ?case by simp
next
  case (Suc d)
  then have lt: "i < length ns" by simp
  let ?sv = "ns ! i"
  have dr: "drop i ns = ?sv # drop (Suc i) ns"
    using lt by (simp add: Cons_nth_drop_Suc)
  obtain tr w' where a: "notifyOne m (ord i) event i ?sv w = (tr, w')"
    by (cases "notifyOne m (ord i) event i ?sv w")
  obtain tr' w'' where b: "notifyLoop m ord event (Suc i) (drop (Suc i) ns) w' = (tr', w'')"
    by (cases "notifyLoop m ord event (Suc i) (drop (Suc i) ns) w'")
  have s1: "sends tr = (if suppressed m (ord i) event (Name ?sv) then [] else [i])"
    using notifyOne_sends[of m "ord i" event i ?sv w] a by (simp add: suppressed_def)
  have "d = length ns - Suc i" using Suc.hyps(2) by simp
  moreover have "Suc i \<le> length ns" using lt by simp
  ultimately have s2: "sends tr' = filter (\<lambda>j. \<not> suppressed m (ord j) event (Name (ns ! j))) [Suc i..<length ns]"
    using Suc.hyps(1)[of "Suc i" w'] b by simp
  have u: "[i..<length ns] = i # [Suc i..<length ns]"
    using lt by (rule upt_conv_Cons)
  show ?case
    unfolding dr u by (simp add: a b sends_append s1 s2)
qed

lemma notifyLoop_outcomes:
  "outcomes (fst (notifyLoop m ord event i svs w)) = map Name svs"
proof (induction svs arbitrary: i w)
  case Nil
  then show ?case by simp
next
  case (Cons sv svs)
  obtain tr w' where a: "notifyOne m (ord i) event i sv w = (tr, w')"
    by (cases "notifyOne m (ord i) event i sv w")
  obtain tr' w'' where b: "notifyLoop m ord event (Suc i) svs w' = (tr', w'')"
    by (cases "notifyLoop m ord event (Suc i) svs w'")
  have s1: "outcomes tr = [Name sv]"
    using notifyOne_outcomes[of m "ord i" event i sv w] a by simp
  have s2: "outcomes tr' = map Name svs"
    using Cons.IH[of "Suc i" w'] b by simp
  show ?case
    by (simp add: a b outcomes_append s1 s2)
qed


lemma suppressed_iff:
  assumes "range_order m ks"
  shows "suppressed m ks event name = (\<exists>k st. fmlookup m k = Some st \<and> discard st event name)"
proof -
  have "suppressed m ks event name
          = (\<exists>kv \<in> {(k, st). k \<in> set ks \<and> fmlookup m k = Some st}. discard (snd kv) event name)"
    by (simp only: suppressed_def rangeLoop_fst entries_set)
  also have "\<dots> = (\<exists>k st. k \<in> fmdom' m \<and> fmlookup m k = Some st \<and> discard st event name)"
    using assms by (auto simp: range_order_def)
  also have "\<dots> = (\<exists>k st. fmlookup m k = Some st \<and> discard st event name)"
    by (auto intro: fmdom'I)
  finally show ?thesis .
qed

lemma rangeLoop_first_match:
  assumes "\<forall>kv \<in> set pre. \<not> discard (snd kv) event name" and "discard st event name"
  shows "rangeLoop (pre @ (k, st) # post) event name
           = (True, map (LogNoMatch \<circ> fst) pre @ [LogMatch k])"
  using assms by (induction pre) auto

lemma rangeLoop_split:
  assumes "fst (rangeLoop kvs event name)"
  shows "\<exists>pre k st post. kvs = pre @ (k, st) # post
           \<and> (\<forall>kv \<in> set pre. \<not> discard (snd kv) event name)
           \<and> discard st event name"
proof -
  from assms have "\<exists>kv \<in> set kvs. discard (snd kv) event name"
    by (simp add: rangeLoop_fst)
  from split_list_first_prop[OF this] obtain pre kv post where
    s: "kvs = pre @ kv # post" "discard (snd kv) event name"
       "\<forall>y \<in> set pre. \<not> discard (snd y) event name"
    by blast
  obtain k st where "kv = (k, st)" by (cases kv)
  with s show ?thesis by auto
qed

lemma sends_mem: "CallSend i e \<in> set tr \<Longrightarrow> i \<in> set (sends tr)"
  by (induction tr rule: sends.induct) auto

lemma notifyLoop_all_suppressed:
  assumes "\<forall>j<length ns. suppressed m (ord j) event (Name (ns ! j))"
  shows "i \<le> length ns \<Longrightarrow>
    notifyLoop m ord event i (drop i ns) w
      = (concat (map (\<lambda>j. fst (notifyOne m (ord j) event j (ns ! j) w)) [i..<length ns]), w)"
proof (induction "length ns - i" arbitrary: i)
  case 0
  then show ?case by simp
next
  case (Suc d)
  then have lt: "i < length ns" by simp
  let ?sv = "ns ! i"
  have dr: "drop i ns = ?sv # drop (Suc i) ns"
    using lt by (simp add: Cons_nth_drop_Suc)
  have u: "[i..<length ns] = i # [Suc i..<length ns]"
    using lt by (rule upt_conv_Cons)
  have "suppressed m (ord i) event (Name ?sv)" using assms lt by simp
  then have one: "snd (notifyOne m (ord i) event i ?sv w) = w"
    by (auto simp: notifyOne_def suppressed_def Let_def split: prod.splits)
  have "d = length ns - Suc i" using Suc.hyps(2) by simp
  moreover have "Suc i \<le> length ns" using lt by simp
  ultimately have r: "notifyLoop m ord event (Suc i) (drop (Suc i) ns) w
      = (concat (map (\<lambda>j. fst (notifyOne m (ord j) event j (ns ! j) w)) [Suc i..<length ns]), w)"
    by (rule Suc.hyps(1))
  show ?case
    unfolding dr u using one r
    by (cases "notifyOne m (ord i) event i ?sv w") simp
qed

text \<open>
  C2. If some stash of the controller matches the event, then \<open>processEvent\<close> calls no
  notifier's \<open>Send\<close> and leaves the world as it was, and for every registered notifier the
  pass over the stashes stops at the first match: the stashes ranged over before it are
  logged as not matching, the match is logged, the discard is logged, and no stash after the
  match is looked at. This holds for every order in which the passes range over the map.
\<close>

theorem processEvent_match_suppresses:
  assumes ord: "\<forall>i<length (notifiers c). range_order (stashes c) (ord i)"
      and st: "fmlookup (stashes c) k = Some st"
      and d: "discard st event dest"
  shows "(\<forall>i e. CallSend i e \<notin> set (fst (processEvent c ord event w)))
       \<and> snd (processEvent c ord event w) = w
       \<and> fst (processEvent c ord event w)
           = concat (map (\<lambda>i. fst (notifyOne (stashes c) (ord i) event i (notifiers c ! i) w))
                         [0..<length (notifiers c)])
       \<and> (\<forall>i<length (notifiers c). \<exists>pre k' st' post.
             entries (stashes c) (ord i) = pre @ (k', st') # post
           \<and> (\<forall>kv \<in> set pre. \<not> discard (snd kv) event (Name (notifiers c ! i)))
           \<and> discard st' event (Name (notifiers c ! i))
           \<and> notifyOne (stashes c) (ord i) event i (notifiers c ! i) w
               = (map (LogNoMatch \<circ> fst) pre
                    @ [LogMatch k',
                       LogDiscard (Name (notifiers c ! i)) (StringValue (evEventId event))], w))"
proof -
  let ?m = "stashes c" and ?ns = "notifiers c"
  have sup: "\<forall>j<length ?ns. suppressed ?m (ord j) event (Name (?ns ! j))"
  proof (intro allI impI)
    fix j assume "j < length ?ns"
    then have "range_order ?m (ord j)" using ord by simp
    moreover have "discard st event (Name (?ns ! j))"
      using d discard_dest by blast
    ultimately show "suppressed ?m (ord j) event (Name (?ns ! j))"
      using st by (auto simp: suppressed_iff)
  qed
  have s0: "sends (fst (processEvent c ord event w)) = []"
    using notifyLoop_sends[of 0 ?ns ?m ord event w] sup
    by (simp add: processEvent_def filter_empty_conv)
  have a: "\<forall>i e. CallSend i e \<notin> set (fst (processEvent c ord event w))"
    using s0 sends_mem by fastforce
  have b: "processEvent c ord event w
      = (concat (map (\<lambda>j. fst (notifyOne ?m (ord j) event j (?ns ! j) w)) [0..<length ?ns]), w)"
    using notifyLoop_all_suppressed[OF sup, of 0 w] by (simp add: processEvent_def)
  have e: "\<forall>i<length ?ns. \<exists>pre k' st' post.
             entries ?m (ord i) = pre @ (k', st') # post
           \<and> (\<forall>kv \<in> set pre. \<not> discard (snd kv) event (Name (?ns ! i)))
           \<and> discard st' event (Name (?ns ! i))
           \<and> notifyOne ?m (ord i) event i (?ns ! i) w
               = (map (LogNoMatch \<circ> fst) pre
                    @ [LogMatch k', LogDiscard (Name (?ns ! i)) (StringValue (evEventId event))], w)"
  proof (intro allI impI)
    fix i assume "i < length ?ns"
    then have "fst (rangeLoop (entries ?m (ord i)) event (Name (?ns ! i)))"
      using sup by (simp add: suppressed_def)
    from rangeLoop_split[OF this] obtain pre k' st' post where
      sp: "entries ?m (ord i) = pre @ (k', st') # post"
          "\<forall>kv \<in> set pre. \<not> discard (snd kv) event (Name (?ns ! i))"
          "discard st' event (Name (?ns ! i))"
      by blast
    have "notifyOne ?m (ord i) event i (?ns ! i) w
            = (map (LogNoMatch \<circ> fst) pre
                 @ [LogMatch k', LogDiscard (Name (?ns ! i)) (StringValue (evEventId event))], w)"
      by (simp add: notifyOne_def Let_def sp(1) rangeLoop_first_match[OF sp(2) sp(3)])
    with sp show "\<exists>pre k' st' post.
             entries ?m (ord i) = pre @ (k', st') # post
           \<and> (\<forall>kv \<in> set pre. \<not> discard (snd kv) event (Name (?ns ! i)))
           \<and> discard st' event (Name (?ns ! i))
           \<and> notifyOne ?m (ord i) event i (?ns ! i) w
               = (map (LogNoMatch \<circ> fst) pre
                    @ [LogMatch k', LogDiscard (Name (?ns ! i)) (StringValue (evEventId event))], w)"
      by blast
  qed
  show ?thesis using a b e by simp
qed

theorem processEvent_match_suppresses_witness:
  "range_order (stashes scenarioA) [1, 2]
   \<and> fmlookup (stashes scenarioA) 2 = Some (zeroStash\<lparr>EventName := ''DeleteBucket''\<rparr>)
   \<and> discard (zeroStash\<lparr>EventName := ''DeleteBucket''\<rparr>) deleteBucket ''stdout''
   \<and> processEvent scenarioA (\<lambda>i. [1, 2]) deleteBucket []
       = ([LogNoMatch 1, LogMatch 2, LogDiscard ''stdout'' ''e1''], [])
   \<and> snd (processEvent scenarioA (\<lambda>i. [1, 2]) deleteBucket []) = []"
proof -
  have h1: "range_order (stashes scenarioA) [1, 2]"
    by code_simp
  have h2: "fmlookup (stashes scenarioA) 2 = Some (zeroStash\<lparr>EventName := ''DeleteBucket''\<rparr>)"
    by code_simp
  have h3: "discard (zeroStash\<lparr>EventName := ''DeleteBucket''\<rparr>) deleteBucket ''stdout''"
    by code_simp
  have e: "processEvent scenarioA (\<lambda>i. [1, 2]) deleteBucket []
             = ([LogNoMatch 1, LogMatch 2, LogDiscard ''stdout'' ''e1''], [])"
    by code_simp
  have "\<forall>i<length (notifiers scenarioA). range_order (stashes scenarioA) ((\<lambda>i. [1, 2]) i)"
    using h1 by simp
  from processEvent_match_suppresses[OF this h2 h3, of "[]"]
  have "snd (processEvent scenarioA (\<lambda>i. [1, 2]) deleteBucket []) = []"
    by simp
  with h1 h2 h3 e show ?thesis by simp
qed

lemma rangeLoop_no_match:
  "\<forall>kv \<in> set kvs. \<not> discard (snd kv) event name \<Longrightarrow>
   rangeLoop kvs event name = (False, map (LogNoMatch \<circ> fst) kvs)"
  by (induction kvs) auto

lemma entries_lookup: "kv \<in> set (entries m ks) \<Longrightarrow> fmlookup m (fst kv) = Some (snd kv)"
  by (auto simp: entries_set)

lemma entries_fst: "set ks \<subseteq> fmdom' m \<Longrightarrow> map fst (entries m ks) = ks"
  by (induction ks) (auto split: option.splits simp: fmlookup_dom'_iff)

lemma notifyOne_no_match:
  assumes nm: "\<forall>k st. fmlookup m k = Some st \<longrightarrow> \<not> discard st event dest"
  shows "notifyOne m ks event i sv w =
     (map (LogNoMatch \<circ> fst) (entries m ks) @
        [CallSend i event,
         (case fst (Send sv event w) of
            Some err \<Rightarrow> LogSendError (Name sv) (StringValue (evEventId event)) err
          | None \<Rightarrow> LogSendOk (Name sv) (StringValue (evEventId event)))],
      snd (Send sv event w))"
proof -
  have "\<forall>kv \<in> set (entries m ks). \<not> discard (snd kv) event (Name sv)"
    using nm entries_lookup discard_dest by blast
  from rangeLoop_no_match[OF this] show ?thesis
    by (simp add: notifyOne_def Let_def split: prod.splits option.splits)
qed

lemma notifyLoop_no_match:
  assumes nm: "\<forall>k st. fmlookup m k = Some st \<longrightarrow> \<not> discard st event dest"
  shows "notifyLoop m ord event i svs w =
     (concat (map (\<lambda>j. map (LogNoMatch \<circ> fst) (entries m (ord (i + j))) @
                [CallSend (i + j) event,
                 (case fst (Send (svs ! j) event
                              (foldl (\<lambda>w sv. snd (Send sv event w)) w (take j svs))) of
                    Some err \<Rightarrow> LogSendError (Name (svs ! j)) (StringValue (evEventId event)) err
                  | None \<Rightarrow> LogSendOk (Name (svs ! j)) (StringValue (evEventId event)))])
              [0..<length svs]),
      foldl (\<lambda>w sv. snd (Send sv event w)) w svs)"
proof (induction svs arbitrary: i w)
  case Nil
  then show ?case by simp
next
  case (Cons sv svs)
  have u: "[0..<length (sv # svs)] = 0 # map Suc [0..<length svs]"
    by (simp add: upt_conv_Cons map_Suc_upt del: upt_Suc)
  show ?case
    unfolding u
    by (simp add: notifyOne_no_match[OF nm] Cons.IH o_def del: upt_Suc cong: option.case_cong)
qed


lemma all_suppressed:
  assumes ord: "\<forall>i<length ns. range_order m (ord i)"
      and st: "fmlookup m k = Some st"
      and d: "discard st event dest"
  shows "\<forall>j<length ns. suppressed m (ord j) event (Name (ns ! j))"
proof (intro allI impI)
  fix j assume "j < length ns"
  then have "range_order m (ord j)" using ord by simp
  moreover have "discard st event (Name (ns ! j))"
    using d discard_dest by blast
  ultimately show "suppressed m (ord j) event (Name (ns ! j))"
    using st by (auto simp: suppressed_iff)
qed

lemma none_suppressed:
  assumes nm: "\<forall>k st. fmlookup m k = Some st \<longrightarrow> \<not> discard st event dest"
  shows "\<not> suppressed m ks event name"
proof -
  have "\<forall>kv \<in> set (entries m ks). \<not> discard (snd kv) event name"
    using nm entries_lookup discard_dest by blast
  then show ?thesis by (simp add: suppressed_def rangeLoop_fst)
qed

text \<open>
  C3. Whatever each \<open>Send\<close> returns, \<open>processEvent\<close> reaches an outcome for every
  notifier, in registration order. If some stash matches the event, no \<open>Send\<close> is called
  and the world is left alone. If none matches, then for each notifier in registration order
  the pass logs every stash as not matching, \<open>Send\<close> is called in the world left by the
  notifiers before it, and what it returns is logged (the error, or success); the world at
  the end is the one left by the \<open>Send\<close> of every notifier in turn. So an error from one
  notifier stops neither the evaluation nor the delivery for the later ones, and it goes to
  the log only: \<open>processEvent\<close> returns the trace and the world, and no error.
\<close>

theorem processEvent_attempts_all:
  assumes ord: "\<forall>i<length (notifiers c). range_order (stashes c) (ord i)"
  shows "outcomes (fst (processEvent c ord event w)) = map Name (notifiers c)
       \<and> ((\<exists>k st. fmlookup (stashes c) k = Some st \<and> discard st event dest) \<longrightarrow>
              sends (fst (processEvent c ord event w)) = []
            \<and> snd (processEvent c ord event w) = w)
       \<and> ((\<forall>k st. fmlookup (stashes c) k = Some st \<longrightarrow> \<not> discard st event dest) \<longrightarrow>
              processEvent c ord event w =
                (concat (map (\<lambda>j. map LogNoMatch (ord j) @
                           [CallSend j event,
                            (case fst (Send (notifiers c ! j) event
                                        (foldl (\<lambda>w sv. snd (Send sv event w)) w
                                               (take j (notifiers c)))) of
                               Some err \<Rightarrow> LogSendError (Name (notifiers c ! j))
                                             (StringValue (evEventId event)) err
                             | None \<Rightarrow> LogSendOk (Name (notifiers c ! j))
                                         (StringValue (evEventId event)))])
                         [0..<length (notifiers c)]),
                 foldl (\<lambda>w sv. snd (Send sv event w)) w (notifiers c))
            \<and> sends (fst (processEvent c ord event w)) = [0..<length (notifiers c)])"
proof -
  let ?m = "stashes c" and ?ns = "notifiers c"
  have a: "outcomes (fst (processEvent c ord event w)) = map Name ?ns"
    by (simp add: processEvent_def notifyLoop_outcomes)
  have s: "sends (fst (processEvent c ord event w))
             = filter (\<lambda>j. \<not> suppressed ?m (ord j) event (Name (?ns ! j))) [0..<length ?ns]"
    using notifyLoop_sends[of 0 ?ns ?m ord event w] by (simp add: processEvent_def)
  have b: "sends (fst (processEvent c ord event w)) = [] \<and> snd (processEvent c ord event w) = w"
    if "\<exists>k st. fmlookup ?m k = Some st \<and> discard st event dest"
  proof -
    from that obtain k st where "fmlookup ?m k = Some st" "discard st event dest" by blast
    from all_suppressed[OF ord this]
    have sup: "\<forall>j<length ?ns. suppressed ?m (ord j) event (Name (?ns ! j))" .
    have "sends (fst (processEvent c ord event w)) = []"
      unfolding s using sup by (simp add: filter_empty_conv)
    moreover have "snd (processEvent c ord event w) = w"
      using notifyLoop_all_suppressed[OF sup, of 0 w] by (simp add: processEvent_def)
    ultimately show ?thesis by simp
  qed
  have n: "processEvent c ord event w =
                (concat (map (\<lambda>j. map LogNoMatch (ord j) @
                           [CallSend j event,
                            (case fst (Send (?ns ! j) event
                                        (foldl (\<lambda>w sv. snd (Send sv event w)) w (take j ?ns))) of
                               Some err \<Rightarrow> LogSendError (Name (?ns ! j))
                                             (StringValue (evEventId event)) err
                             | None \<Rightarrow> LogSendOk (Name (?ns ! j))
                                         (StringValue (evEventId event)))])
                         [0..<length ?ns]),
                 foldl (\<lambda>w sv. snd (Send sv event w)) w ?ns)
            \<and> sends (fst (processEvent c ord event w)) = [0..<length ?ns]"
    if nm: "\<forall>k st. fmlookup ?m k = Some st \<longrightarrow> \<not> discard st event dest"
  proof -
    have e: "map (\<lambda>kv. LogNoMatch (fst kv)) (entries ?m (ord j)) = map LogNoMatch (ord j)"
      if "j < length ?ns" for j
    proof -
      have "set (ord j) \<subseteq> fmdom' ?m"
        using ord that by (simp add: range_order_def)
      from entries_fst[OF this]
      have "map LogNoMatch (map fst (entries ?m (ord j))) = map LogNoMatch (ord j)"
        by simp
      then show ?thesis by (simp add: o_def)
    qed
    have "processEvent c ord event w =
                (concat (map (\<lambda>j. map LogNoMatch (ord j) @
                           [CallSend j event,
                            (case fst (Send (?ns ! j) event
                                        (foldl (\<lambda>w sv. snd (Send sv event w)) w (take j ?ns))) of
                               Some err \<Rightarrow> LogSendError (Name (?ns ! j))
                                             (StringValue (evEventId event)) err
                             | None \<Rightarrow> LogSendOk (Name (?ns ! j))
                                         (StringValue (evEventId event)))])
                         [0..<length ?ns]),
                 foldl (\<lambda>w sv. snd (Send sv event w)) w ?ns)"
      unfolding processEvent_def notifyLoop_no_match[OF nm]
      by (simp add: o_def, intro arg_cong[where f = concat] map_cong) (simp_all add: e)
    moreover have "sends (fst (processEvent c ord event w)) = [0..<length ?ns]"
      unfolding s using none_suppressed[OF nm] by simp
    ultimately show ?thesis by simp
  qed
  show ?thesis using a b n by blast
qed


theorem processEvent_attempts_all_witness:
  "range_order (stashes scenarioE) [1, 2] \<and> range_order (stashes scenarioE) [2, 1]
   \<and> \<not> (\<exists>k st. fmlookup (stashes scenarioE) k = Some st \<and> discard st createUser [])
   \<and> processEvent scenarioE ordE createUser []
       = ([LogNoMatch 1, LogNoMatch 2, CallSend 0 createUser, LogSendOk ''stdout'' ''e2'',
           LogNoMatch 2, LogNoMatch 1, CallSend 1 createUser,
           LogSendError ''Hipchat'' ''e2'' (UnexpectedStatus 404 []),
           LogNoMatch 1, LogNoMatch 2, CallSend 2 createUser, LogSendOk ''console'' ''e2''],
          [''stdout:e2'', ''Hipchat:e2'', ''console:e2''])
   \<and> sends (fst (processEvent scenarioE ordE createUser [])) = [0, 1, 2]
   \<and> outcomes (fst (processEvent scenarioE ordE createUser []))
       = [''stdout'', ''Hipchat'', ''console'']"
proof -
  have o1: "range_order (stashes scenarioE) [1, 2]"
    by code_simp
  have o2: "range_order (stashes scenarioE) [2, 1]"
    by code_simp
  have ord: "\<forall>i<length (notifiers scenarioE). range_order (stashes scenarioE) (ordE i)"
    using o1 o2 by (simp add: ordE_def)
  have nm: "\<forall>k st. fmlookup (stashes scenarioE) k = Some st \<longrightarrow> \<not> discard st createUser []"
    by (auto simp: scenarioE_def zeroStash_def createUser_def discard_def split: if_splits)
  have e: "processEvent scenarioE ordE createUser []
       = ([LogNoMatch 1, LogNoMatch 2, CallSend 0 createUser, LogSendOk ''stdout'' ''e2'',
           LogNoMatch 2, LogNoMatch 1, CallSend 1 createUser,
           LogSendError ''Hipchat'' ''e2'' (UnexpectedStatus 404 []),
           LogNoMatch 1, LogNoMatch 2, CallSend 2 createUser, LogSendOk ''console'' ''e2''],
          [''stdout:e2'', ''Hipchat:e2'', ''console:e2''])"
    by code_simp
  have l: "[0..<length (notifiers scenarioE)] = [0, 1, 2]"
    by code_simp
  have n: "map Name (notifiers scenarioE) = [''stdout'', ''Hipchat'', ''console'']"
    by code_simp
  from processEvent_attempts_all[OF ord, of createUser "[]" "[]"] nm
  have "sends (fst (processEvent scenarioE ordE createUser [])) = [0, 1, 2]
      \<and> outcomes (fst (processEvent scenarioE ordE createUser []))
           = [''stdout'', ''Hipchat'', ''console'']"
    unfolding l n by blast
  with o1 o2 nm e show ?thesis by blast
qed

section \<open>The legacy program against the current one\<close>

lemma legacy_discard_shared: "legacy_discard (shared st) event d = discard st event d'"
  by (simp add: legacy_discard_def discard_def shared_def)

lemma legacy_rangeLoop_fst:
  "fst (legacy_rangeLoop kvs event name) = (\<exists>kv \<in> set kvs. legacy_discard (snd kv) event name)"
  by (induction kvs event name rule: legacy_rangeLoop.induct) (fastforce split: prod.splits)+

lemma legacy_rangeLoop_sends: "legacy_sends (snd (legacy_rangeLoop kvs event name)) = []"
  by (induction kvs event name rule: legacy_rangeLoop.induct) (auto split: prod.splits)

lemma legacy_sends_append: "legacy_sends (xs @ ys) = legacy_sends xs @ legacy_sends ys"
  by (induction xs rule: legacy_sends.induct) simp_all

lemma legacy_suppressed_iff:
  assumes "range_order m ks"
  shows "legacy_suppressed m ks event name
           = (\<exists>k st. fmlookup m k = Some st \<and> legacy_discard st event name)"
proof -
  have "legacy_suppressed m ks event name
          = (\<exists>kv \<in> {(k, st). k \<in> set ks \<and> fmlookup m k = Some st}.
               legacy_discard (snd kv) event name)"
    by (simp only: legacy_suppressed_def legacy_rangeLoop_fst entries_set)
  also have "\<dots> = (\<exists>k st. k \<in> fmdom' m \<and> fmlookup m k = Some st
                         \<and> legacy_discard st event name)"
    using assms by (auto simp: range_order_def)
  also have "\<dots> = (\<exists>k st. fmlookup m k = Some st \<and> legacy_discard st event name)"
    by (auto intro: fmdom'I)
  finally show ?thesis .
qed

lemma legacy_serveOne_sends:
  "legacy_sends (fst (legacy_serveOne m ks event i sv w))
     = (if legacy_suppressed m ks event (service_Name sv) then [] else [i])"
  using legacy_rangeLoop_sends[of "entries m ks" event "service_Name sv"]
  by (auto simp: legacy_serveOne_def legacy_suppressed_def Let_def legacy_sends_append
           split: prod.splits bool.splits)

lemma legacy_serveLoop_sends:
  "i \<le> length ns \<Longrightarrow>
   legacy_sends (fst (legacy_serveLoop m ord event i (drop i ns) w))
     = filter (\<lambda>j. \<not> legacy_suppressed m (ord j) event (service_Name (ns ! j))) [i..<length ns]"
proof (induction "length ns - i" arbitrary: i w)
  case 0
  then show ?case by simp
next
  case (Suc d)
  then have lt: "i < length ns" by simp
  let ?sv = "ns ! i"
  have dr: "drop i ns = ?sv # drop (Suc i) ns"
    using lt by (simp add: Cons_nth_drop_Suc)
  obtain tr w' where a: "legacy_serveOne m (ord i) event i ?sv w = (tr, w')"
    by (cases "legacy_serveOne m (ord i) event i ?sv w")
  obtain tr' w'' where b: "legacy_serveLoop m ord event (Suc i) (drop (Suc i) ns) w' = (tr', w'')"
    by (cases "legacy_serveLoop m ord event (Suc i) (drop (Suc i) ns) w'")
  have s1: "legacy_sends tr
              = (if legacy_suppressed m (ord i) event (service_Name ?sv) then [] else [i])"
    using legacy_serveOne_sends[of m "ord i" event i ?sv w] a by simp
  have "d = length ns - Suc i" using Suc.hyps(2) by simp
  moreover have "Suc i \<le> length ns" using lt by simp
  ultimately have s2: "legacy_sends tr'
      = filter (\<lambda>j. \<not> legacy_suppressed m (ord j) event (service_Name (ns ! j)))
               [Suc i..<length ns]"
    using Suc.hyps(1)[of "Suc i" w'] b by simp
  have u: "[i..<length ns] = i # [Suc i..<length ns]"
    using lt by (rule upt_conv_Cons)
  show ?case
    unfolding dr u by (simp add: a b legacy_sends_append s1 s2)
qed

lemma legacy_discard_dest: "legacy_discard st event d = legacy_discard st event d'"
  by (simp add: legacy_discard_def)

lemma legacy_serveLoop_all_suppressed:
  "\<forall>j<length svs. legacy_suppressed m (ord (i + j)) event (service_Name (svs ! j)) \<Longrightarrow>
   snd (legacy_serveLoop m ord event i svs w) = w"
proof (induction svs arbitrary: i)
  case Nil
  then show ?case by simp
next
  case (Cons sv svs)
  have h: "legacy_suppressed m (ord i) event (service_Name sv)"
    using Cons.prems by fastforce
  have t: "\<forall>j<length svs. legacy_suppressed m (ord (Suc i + j)) event (service_Name (svs ! j))"
    using Cons.prems by fastforce
  have one: "snd (legacy_serveOne m (ord i) event i sv w) = w"
    using h by (auto simp: legacy_serveOne_def legacy_suppressed_def Let_def split: prod.splits)
  show ?case
    using one Cons.IH[OF t]
    by (cases "legacy_serveOne m (ord i) event i sv w";
        cases "legacy_serveLoop m ord event (Suc i) svs w") simp
qed

lemma legacy_serveLoop_no_match:
  assumes nm: "\<forall>k st. fmlookup m k = Some st \<longrightarrow> \<not> legacy_discard st event dest"
  shows "snd (legacy_serveLoop m ord event i svs w)
           = foldl (\<lambda>w sv. service_Send sv event w) w svs"
proof (induction svs arbitrary: i w)
  case Nil
  then show ?case by simp
next
  case (Cons sv svs)
  have "\<forall>kv \<in> set (entries m (ord i)). \<not> legacy_discard (snd kv) event (service_Name sv)"
    using nm entries_lookup legacy_discard_dest by blast
  then have "\<not> fst (legacy_rangeLoop (entries m (ord i)) event (service_Name sv))"
    by (simp add: legacy_rangeLoop_fst)
  then have one: "snd (legacy_serveOne m (ord i) event i sv w) = service_Send sv event w"
    by (auto simp: legacy_serveOne_def Let_def split: prod.splits)
  show ?case
    using one Cons.IH[of "Suc i" "service_Send sv event w"]
    by (cases "legacy_serveOne m (ord i) event i sv w";
        cases "legacy_serveLoop m ord event (Suc i) svs (service_Send sv event w)") simp
qed

lemma foldl_related:
  "list_all2 (\<lambda>sv nt. service_Name sv = Name nt
                 \<and> (\<forall>e w. service_Send sv e w = snd (Send nt e w))) svs ns \<Longrightarrow>
   foldl (\<lambda>w sv. service_Send sv event w) w svs = foldl (\<lambda>w nt. snd (Send nt event w)) w ns"
  by (induction svs ns arbitrary: w rule: list_all2_induct) simp_all


text \<open>
  C9. The legacy \<open>discard\<close> and the current one give the same answer on stashes with the same
  event-name and user-name filters. Let the legacy controller hold the same stashes (their
  shared fields), and let its services be, position by position, the notifiers of the current
  one: same name, and a \<open>Send\<close> with the same effect on the world. Then, from the same
  world and for the same event, the legacy dispatch loop and \<open>processEvent\<close> call \<open>Send\<close>
  on the same notifiers in the same order and leave the same world: untouched with no call
  when a stash matches, and the world left by every \<open>Send\<close> in turn when none does. The
  orders in which the two range over their maps may differ.
\<close>

theorem legacy_dispatch_agrees:
  assumes m: "legacy_stashes lc = fmmap shared (stashes c)"
      and n: "list_all2 (\<lambda>sv nt. service_Name sv = Name nt
                           \<and> (\<forall>e w. service_Send sv e w = snd (Send nt e w)))
                        (services lc) (notifiers c)"
      and o: "\<forall>i<length (notifiers c).
                range_order (stashes c) (ord i) \<and> range_order (legacy_stashes lc) (ord' i)"
  shows "legacy_discard \<lparr>legacy_EventName = EventName s, legacy_Username = Username s,
                          legacy_Destinations = ds\<rparr> event d
           = discard s event d'
       \<and> legacy_sends (fst (legacy_dispatch lc ord' event w))
           = sends (fst (processEvent c ord event w))
       \<and> set (legacy_sends (fst (legacy_dispatch lc ord' event w)))
           = set (sends (fst (processEvent c ord event w)))
       \<and> snd (legacy_dispatch lc ord' event w) = snd (processEvent c ord event w)
       \<and> ((\<exists>k st. fmlookup (stashes c) k = Some st \<and> discard st event d') \<longrightarrow>
              legacy_sends (fst (legacy_dispatch lc ord' event w)) = []
            \<and> snd (legacy_dispatch lc ord' event w) = w)
       \<and> ((\<forall>k st. fmlookup (stashes c) k = Some st \<longrightarrow> \<not> discard st event d') \<longrightarrow>
              legacy_sends (fst (legacy_dispatch lc ord' event w)) = [0..<length (services lc)]
            \<and> snd (legacy_dispatch lc ord' event w)
                = foldl (\<lambda>w sv. service_Send sv event w) w (services lc))"
proof -
  let ?m = "stashes c" and ?ns = "notifiers c" and ?lm = "legacy_stashes lc" and ?svs = "services lc"
  have len: "length ?svs = length ?ns"
    using n by (rule list_all2_lengthD)
  have ex: "(\<exists>k st. fmlookup ?lm k = Some st \<and> legacy_discard st event a)
          = (\<exists>k st. fmlookup ?m k = Some st \<and> discard st event b)" for a b
    unfolding m using legacy_discard_shared[of _ event a b] by auto
  have p: "legacy_suppressed ?lm (ord' j) event (service_Name (?svs ! j))
         = suppressed ?m (ord j) event (Name (?ns ! j))"
    if "j < length ?ns" for j
    using o that ex by (simp add: legacy_suppressed_iff suppressed_iff)
  have l: "legacy_sends (fst (legacy_dispatch lc ord' event w))
     = filter (\<lambda>j. \<not> legacy_suppressed ?lm (ord' j) event (service_Name (?svs ! j)))
              [0..<length ?ns]"
    using legacy_serveLoop_sends[of 0 ?svs ?lm ord' event w]
    by (simp add: legacy_dispatch_def len)
  have r: "sends (fst (processEvent c ord event w))
     = filter (\<lambda>j. \<not> suppressed ?m (ord j) event (Name (?ns ! j))) [0..<length ?ns]"
    using notifyLoop_sends[of 0 ?ns ?m ord event w]
    by (simp add: processEvent_def)
  have eq: "legacy_sends (fst (legacy_dispatch lc ord' event w))
          = sends (fst (processEvent c ord event w))"
    unfolding l r by (rule filter_cong) (simp_all add: p)
  have yes: "legacy_sends (fst (legacy_dispatch lc ord' event w)) = []
           \<and> snd (legacy_dispatch lc ord' event w) = w
           \<and> snd (processEvent c ord event w) = w"
    if "\<exists>k st. fmlookup ?m k = Some st \<and> discard st event d'"
  proof -
    from that obtain k st where st: "fmlookup ?m k = Some st" "discard st event d'" by blast
    have ord1: "\<forall>i<length ?ns. range_order ?m (ord i)" using o by simp
    from all_suppressed[OF ord1 st]
    have sup: "\<forall>j<length ?ns. suppressed ?m (ord j) event (Name (?ns ! j))" .
    then have lsup: "\<forall>j<length ?svs.
        legacy_suppressed ?lm (ord' (0 + j)) event (service_Name (?svs ! j))"
      using p len by simp
    have "sends (fst (processEvent c ord event w)) = []"
      unfolding r using sup by (simp add: filter_empty_conv)
    moreover have "snd (processEvent c ord event w) = w"
      using notifyLoop_all_suppressed[OF sup, of 0 w] by (simp add: processEvent_def)
    moreover have "snd (legacy_dispatch lc ord' event w) = w"
      unfolding legacy_dispatch_def by (rule legacy_serveLoop_all_suppressed[OF lsup])
    ultimately show ?thesis using eq by simp
  qed
  have no: "legacy_sends (fst (legacy_dispatch lc ord' event w)) = [0..<length ?svs]
          \<and> snd (legacy_dispatch lc ord' event w)
               = foldl (\<lambda>w sv. service_Send sv event w) w ?svs
          \<and> snd (processEvent c ord event w)
               = foldl (\<lambda>w sv. service_Send sv event w) w ?svs"
    if nm: "\<forall>k st. fmlookup ?m k = Some st \<longrightarrow> \<not> discard st event d'"
  proof -
    have lnm: "\<forall>k st. fmlookup ?lm k = Some st \<longrightarrow> \<not> legacy_discard st event d"
      using ex[of d d'] nm by blast
    have "sends (fst (processEvent c ord event w)) = [0..<length ?ns]"
      unfolding r using none_suppressed[OF nm] by simp
    moreover have "snd (legacy_dispatch lc ord' event w)
               = foldl (\<lambda>w sv. service_Send sv event w) w ?svs"
      unfolding legacy_dispatch_def by (rule legacy_serveLoop_no_match[OF lnm])
    moreover have "snd (processEvent c ord event w)
               = foldl (\<lambda>w nt. snd (Send nt event w)) w ?ns"
      unfolding processEvent_def notifyLoop_no_match[OF nm] by simp
    ultimately show ?thesis using eq len foldl_related[OF n, of event w] by simp
  qed
  have w: "snd (legacy_dispatch lc ord' event w) = snd (processEvent c ord event w)"
    using yes no by (cases "\<exists>k st. fmlookup ?m k = Some st \<and> discard st event d'") auto
  have dd: "legacy_discard \<lparr>legacy_EventName = EventName s, legacy_Username = Username s,
                          legacy_Destinations = ds\<rparr> event d
           = discard s event d'"
    by (simp add: legacy_discard_def discard_def)
  show ?thesis using dd eq w yes no by simp
qed

theorem legacy_dispatch_agrees_witness:
  "legacy_stashes legacyE = fmmap shared (stashes scenarioE)
   \<and> list_all2 (\<lambda>sv nt. service_Name sv = Name nt
                   \<and> (\<forall>e w. service_Send sv e w = snd (Send nt e w)))
                (services legacyE) (notifiers scenarioE)
   \<and> range_order (stashes scenarioE) [1, 2] \<and> range_order (stashes scenarioE) [2, 1]
   \<and> range_order (legacy_stashes legacyE) [2, 1]
   \<and> \<not> (\<exists>k st. fmlookup (stashes scenarioE) k = Some st \<and> discard st createUser [])
   \<and> legacy_dispatch legacyE (\<lambda>i. [2, 1]) createUser []
       = ([LegacyLogNoMatch 2, LegacyLogNoMatch 1, LegacyLogSend ''stdout'' ''e2'',
           LegacyCallSend 0 createUser,
           LegacyLogNoMatch 2, LegacyLogNoMatch 1, LegacyLogSend ''Hipchat'' ''e2'',
           LegacyCallSend 1 createUser,
           LegacyLogNoMatch 2, LegacyLogNoMatch 1, LegacyLogSend ''console'' ''e2'',
           LegacyCallSend 2 createUser],
          [''stdout:e2'', ''Hipchat:e2'', ''console:e2''])
   \<and> snd (processEvent scenarioE ordE createUser [])
       = [''stdout:e2'', ''Hipchat:e2'', ''console:e2'']
   \<and> sends (fst (processEvent scenarioE ordE createUser [])) = [0, 1, 2]
   \<and> legacy_dispatch legacyE (\<lambda>i. [2, 1]) deleteBucket []
       = ([LegacyLogMatch 2, LegacyLogDiscard ''stdout'' ''e1'',
           LegacyLogMatch 2, LegacyLogDiscard ''Hipchat'' ''e1'',
           LegacyLogMatch 2, LegacyLogDiscard ''console'' ''e1''], [])
   \<and> snd (processEvent scenarioE ordE deleteBucket []) = []"
proof -
  have m: "legacy_stashes legacyE = fmmap shared (stashes scenarioE)"
    by code_simp
  have n: "list_all2 (\<lambda>sv nt. service_Name sv = Name nt
                   \<and> (\<forall>e w. service_Send sv e w = snd (Send nt e w)))
                (services legacyE) (notifiers scenarioE)"
    by (simp add: legacyE_def scenarioE_def namedSink_def rejectedSink_def)
  have o1: "range_order (stashes scenarioE) [1, 2]"
    by code_simp
  have o2: "range_order (stashes scenarioE) [2, 1]"
    by code_simp
  have o3: "range_order (legacy_stashes legacyE) [2, 1]"
    by code_simp
  have o: "\<forall>i<length (notifiers scenarioE).
             range_order (stashes scenarioE) (ordE i)
           \<and> range_order (legacy_stashes legacyE) ((\<lambda>i. [2, 1]) i)"
    using o1 o2 o3 by (simp add: ordE_def)
  have nm: "\<forall>k st. fmlookup (stashes scenarioE) k = Some st \<longrightarrow> \<not> discard st createUser []"
    by (auto simp: scenarioE_def zeroStash_def createUser_def discard_def split: if_splits)
  have l1: "legacy_dispatch legacyE (\<lambda>i. [2, 1]) createUser []
       = ([LegacyLogNoMatch 2, LegacyLogNoMatch 1, LegacyLogSend ''stdout'' ''e2'',
           LegacyCallSend 0 createUser,
           LegacyLogNoMatch 2, LegacyLogNoMatch 1, LegacyLogSend ''Hipchat'' ''e2'',
           LegacyCallSend 1 createUser,
           LegacyLogNoMatch 2, LegacyLogNoMatch 1, LegacyLogSend ''console'' ''e2'',
           LegacyCallSend 2 createUser],
          [''stdout:e2'', ''Hipchat:e2'', ''console:e2''])"
    by code_simp
  have l2: "legacy_dispatch legacyE (\<lambda>i. [2, 1]) deleteBucket []
       = ([LegacyLogMatch 2, LegacyLogDiscard ''stdout'' ''e1'',
           LegacyLogMatch 2, LegacyLogDiscard ''Hipchat'' ''e1'',
           LegacyLogMatch 2, LegacyLogDiscard ''console'' ''e1''], [])"
    by code_simp
  have s1: "legacy_sends (fst (legacy_dispatch legacyE (\<lambda>i. [2, 1]) createUser [])) = [0, 1, 2]"
    unfolding l1 by simp
  note t = legacy_dispatch_agrees[OF m n o, where w = "[]"]
  from t[where event = createUser] l1 s1
  have c1: "snd (processEvent scenarioE ordE createUser [])
              = [''stdout:e2'', ''Hipchat:e2'', ''console:e2'']
          \<and> sends (fst (processEvent scenarioE ordE createUser [])) = [0, 1, 2]"
    by simp
  from t[where event = deleteBucket] l2
  have c2: "snd (processEvent scenarioE ordE deleteBucket []) = []"
    by simp
  from m n o1 o2 o3 nm l1 l2 c1 c2 show ?thesis by blast
qed

section \<open>The Hipchat notifier: construction and delivery\<close>

lemma configLoop_field:
  assumes sel: "\<And>k v h. f (assign k v h) = (if k = n then v else f h)"
  shows "distinct (map fst kvs) \<Longrightarrow> f (configLoop kvs h) = orElse (map_of kvs n) (f h)"
proof (induction kvs arbitrary: h)
  case Nil
  then show ?case by (simp add: orElse_def)
next
  case (Cons kv kvs)
  obtain k v where kv: "kv = (k, v)" by (cases kv)
  have d: "distinct (map fst kvs)" and nk: "k \<notin> fst ` set kvs"
    using Cons.prems kv by simp_all
  have none: "map_of kvs k = None"
    using nk by (simp add: map_of_eq_None_iff)
  have ih: "f (configLoop kvs (assign k v h)) = orElse (map_of kvs n) (f (assign k v h))"
    by (rule Cons.IH[OF d])
  show ?case
  proof (cases "k = n")
    case True
    then show ?thesis using none ih by (simp add: kv sel orElse_def)
  next
    case False
    then show ?thesis by (simp add: kv ih sel)
  qed
qed

lemma configLoop_fields:
  assumes "distinct (map fst kvs)"
  shows "RoomID (configLoop kvs h) = orElse (map_of kvs ''room'') (RoomID h)"
    and "Token (configLoop kvs h) = orElse (map_of kvs ''token'') (Token h)"
    and "From (configLoop kvs h) = orElse (map_of kvs ''from'') (From h)"
    and "Endpoint (configLoop kvs h) = orElse (map_of kvs ''endpoint'') (Endpoint h)"
  by (rule configLoop_field[OF _ assms], simp add: assign_def)+

lemma entries_map_of:
  "distinct ks \<Longrightarrow> map_of (entries m ks) k = (if k \<in> set ks then fmlookup m k else None)"
  by (induction ks) (auto split: option.splits)

lemma entries_keys: "distinct ks \<Longrightarrow> distinct (map fst (entries m ks))"
proof (induction ks)
  case Nil
  then show ?case by simp
next
  case (Cons k ks)
  have "fst ` set (entries m ks) \<subseteq> set ks"
    by (induction ks) (auto split: option.splits)
  with Cons show ?case by (auto split: option.splits)
qed

lemma range_map_of:
  assumes "range_order m ks"
  shows "map_of (entries m ks) k = fmlookup m k"
  using assms by (auto simp: range_order_def entries_map_of fmdom'_notD)

lemma NewHipchat_eq:
  assumes "range_order config ks"
  shows "NewHipchat config ks =
     (if mapIndex config ''room'' = [] then Inl (errors_New ''missing room'')
      else if mapIndex config ''token'' = [] then Inl (errors_New ''missing token'')
      else if mapIndex config ''from'' = [] then Inl (errors_New ''missing from'')
      else Inr \<lparr>Endpoint = (if mapIndex config ''endpoint'' = [] then HipchatDefaultEndoint
                             else mapIndex config ''endpoint''),
                RoomID = mapIndex config ''room'',
                Token = mapIndex config ''token'',
                From = mapIndex config ''from''\<rparr>)"
proof -
  let ?h = "configLoop (entries config ks) \<lparr>Endpoint = [], RoomID = [], Token = [], From = []\<rparr>"
  have d: "distinct (map fst (entries config ks))"
    using assms by (simp add: range_order_def entries_keys)
  have g: "orElse (map_of (entries config ks) k) [] = mapIndex config k" for k
    by (simp add: range_map_of[OF assms] orElse_def mapIndex_def)
  have f: "RoomID ?h = mapIndex config ''room''" "Token ?h = mapIndex config ''token''"
          "From ?h = mapIndex config ''from''" "Endpoint ?h = mapIndex config ''endpoint''"
    by (simp_all add: configLoop_fields[OF d] g)
  have r: "?h = \<lparr>Endpoint = mapIndex config ''endpoint'', RoomID = mapIndex config ''room'',
                 Token = mapIndex config ''token'', From = mapIndex config ''from''\<rparr>"
    using f by (cases ?h) simp
  show ?thesis
    unfolding NewHipchat_def Let_def r by simp
qed


text \<open>
  C5. \<open>NewHipchat\<close> returns an error exactly when the configuration leaves the room, the
  token or the display name (\<open>from\<close>) empty, by absence or by an empty value. On success the
  three fields are the configured values and the endpoint is the configured one, or
  \<open>https://api.hipchat.com\<close> when the key is absent or empty. Adding any other key to the
  configuration changes nothing. This holds for every order in which the loop ranges over
  the configuration.
\<close>

theorem NewHipchat_error_iff:
  assumes "range_order config ks"
  shows "((\<exists>e. NewHipchat config ks = Inl e)
            = (mapIndex config ''room'' = [] \<or> mapIndex config ''token'' = []
                 \<or> mapIndex config ''from'' = []))
       \<and> (\<forall>h. NewHipchat config ks = Inr h \<longrightarrow>
              RoomID h = mapIndex config ''room'' \<and> Token h = mapIndex config ''token''
            \<and> From h = mapIndex config ''from''
            \<and> Endpoint h = (if mapIndex config ''endpoint'' = [] then ''https://api.hipchat.com''
                             else mapIndex config ''endpoint''))
       \<and> (\<forall>k v ks'. k \<notin> {''room'', ''token'', ''from'', ''endpoint''}
              \<longrightarrow> range_order (fmupd k v config) ks'
              \<longrightarrow> NewHipchat (fmupd k v config) ks' = NewHipchat config ks)"
proof -
  note eq = NewHipchat_eq[OF assms]
  have a: "(\<exists>e. NewHipchat config ks = Inl e)
            = (mapIndex config ''room'' = [] \<or> mapIndex config ''token'' = []
                 \<or> mapIndex config ''from'' = [])"
    unfolding eq by simp
  have b: "\<forall>h. NewHipchat config ks = Inr h \<longrightarrow>
              RoomID h = mapIndex config ''room'' \<and> Token h = mapIndex config ''token''
            \<and> From h = mapIndex config ''from''
            \<and> Endpoint h = (if mapIndex config ''endpoint'' = [] then ''https://api.hipchat.com''
                             else mapIndex config ''endpoint'')"
    unfolding eq by (auto simp: HipchatDefaultEndoint_def split: if_splits)
  have c: "NewHipchat (fmupd k v config) ks' = NewHipchat config ks"
    if k: "k \<notin> {''room'', ''token'', ''from'', ''endpoint''}"
      and o: "range_order (fmupd k v config) ks'" for k v ks'
  proof -
    have "mapIndex (fmupd k v config) n = mapIndex config n"
      if "n \<in> {''room'', ''token'', ''from'', ''endpoint''}" for n
      using that k by (auto simp: mapIndex_def)
    then show ?thesis
      unfolding eq NewHipchat_eq[OF o] by simp
  qed
  show ?thesis using a b c by blast
qed

theorem NewHipchat_error_iff_witness:
  "range_order sampleConfig [''token'', ''color'', ''room'', ''from'']
   \<and> NewHipchat sampleConfig [''token'', ''color'', ''room'', ''from''] = Inr sampleHipchat
   \<and> mapIndex sampleConfig ''room'' \<noteq> [] \<and> mapIndex sampleConfig ''token'' \<noteq> []
   \<and> mapIndex sampleConfig ''from'' \<noteq> []
   \<and> NewHipchat (fmdrop ''token'' sampleConfig) [''color'', ''room'', ''from'']
       = Inl (errors_New ''missing token'')"
proof -
  have o: "range_order sampleConfig [''token'', ''color'', ''room'', ''from'']"
    by code_simp
  have r: "NewHipchat sampleConfig [''token'', ''color'', ''room'', ''from''] = Inr sampleHipchat"
    by code_simp
  have t: "NewHipchat (fmdrop ''token'' sampleConfig) [''color'', ''room'', ''from'']
             = Inl (errors_New ''missing token'')"
    by code_simp
  from NewHipchat_error_iff[OF o] r
  have "\<not> (mapIndex sampleConfig ''room'' = [] \<or> mapIndex sampleConfig ''token'' = []
             \<or> mapIndex sampleConfig ''from'' = [])"
    by auto
  with o r t show ?thesis by simp
qed

lemma Hipchat_Send_error_iff:
  "(fst (Hipchat_Send lib h e w) \<noteq> None) =
     (case json_Marshal lib \<lparr>msg_From = From h, msg_Message = StringValue (evEventId e)\<rparr> of
        Inl err \<Rightarrow> True
      | Inr body \<Rightarrow>
          (case http_NewRequest lib ''POST'' (Endpoint h @ ''/v2/room/'' @ RoomID h @ ''/notification'') body of
             Inl err \<Rightarrow> True
           | Inr req \<Rightarrow>
               (case fst (DefaultClient_Do lib
                        (Header_Add ''Content-type'' ''application/json''
                           (Header_Add ''Authorization'' (''Bearer '' @ Token h) req)) w) of
                  Inl err \<Rightarrow> True
                | Inr resp \<Rightarrow> StatusCode resp \<ge> 300)))"
  by (simp add: Hipchat_Send_def Let_def split: sum.splits prod.splits)

text \<open>
  C6. \<open>Hipchat.Send\<close> keeps the error of \<open>ioutil.ReadAll\<close> in \<open>err\<close> and never looks at
  it. With a POST answered by status 200 whose body cannot be read, \<open>Send\<close> makes the one
  request and returns nil.
\<close>

theorem Hipchat_Send_read_error_ignored:
  "Hipchat_Send (answering 200 ([], Some (LibraryError ''unexpected EOF'')))
       sampleHipchat deleteBucket []
     = (None,
        [\<lparr>Method = ''POST'', URL = ''https://api.hipchat.com/v2/room/ops/notification'',
          Body = ''{\"from\":\"cloudtail\",\"message\":\"e1\"}'',
          Header = [(''Authorization'', ''Bearer secret''),
                    (''Content-Type'', ''application/json'')]\<rparr>])"
  by code_simp

end
